theory Spec2Isabelle
  imports Complex_Main "HOL-Library.Sublist" "HOL-Library.Multiset"
begin

section \<open>The TFLite model validator (model_validator.py)\<close>

text \<open>
  The validator keeps one dictionary, \<^verbatim>\<open>validation_results\<close>, with the keys
  \<^verbatim>\<open>valid\<close>, \<^verbatim>\<open>errors\<close>, \<^verbatim>\<open>warnings\<close> and \<^verbatim>\<open>info\<close>. It is a record here; the
  \<^verbatim>\<open>info\<close> dictionary is a record of optional fields, one per key the script
  writes, \<open>None\<close> standing for an absent key. The per-tensor keys
  (\<^verbatim>\<open>input_0_shape\<close>, \<^verbatim>\<open>output_1_type\<close>, ...) are kept in a map of their own.

  Python floats are modelled by the rational numbers they denote. The sizes are
  quotients of an integer by \<open>2\<^sup>2\<^sup>0\<close>, \<^verbatim>\<open>round(x, 2)\<close> is rounding to the nearest
  hundredth with ties to even, and every comparison of the script is against an
  integer constant. Console output is not modelled.
\<close>

subsection \<open>Data\<close>

datatype np_dtype = Float16 | Float32 | Float64 | Int8 | UInt8 | Int16 | Int32 | Int64 | Bool8



datatype tensor_value = Shape "int list" | Type np_dtype

text \<open>One constructor per message template of the script.\<close>

datatype warning =
    LargeSize rat
  | SizeImpact rat
  | DynamicShape nat "int list"
  | NotQuantized
  | SelectTfOps
  | OpsCheckFailed string
  | HighMemory rat
  | TestInferenceFailed string

datatype verror = ModelNotFound | LoadFailed string

record info =
  size_mb :: "rat option"
  quantized :: "bool option"
  estimated_memory_mb :: "rat option"
  compatibility_score :: "int option"
  cpu_inference_ms :: "rat option"
  tensors :: "string \<rightharpoonup> tensor_value"

record validation_results =
  valid :: bool
  errors :: "verror list"
  warnings :: "warning list"
  info :: info


datatype py_error = KeyError | ValueError

subsection \<open>Decimal rendering of integers (Python's \<^verbatim>\<open>str\<close> on an \<^verbatim>\<open>int\<close>)\<close>

definition digit_char :: "nat \<Rightarrow> char" where
  "digit_char d = char_of (48 + d)"

fun str_nat :: "nat \<Rightarrow> string" where
  "str_nat n = (if n < 10 then [digit_char n] else str_nat (n div 10) @ [digit_char (n mod 10)])"

declare str_nat.simps [simp del]


subsection \<open>Rounding to two decimals\<close>



subsection \<open>The checks\<close>

definition init_results :: validation_results where
  "init_results =
     \<lparr>valid = True, errors = [], warnings = [],
      info = \<lparr>size_mb = None, quantized = None, estimated_memory_mb = None,
              compatibility_score = None, cpu_inference_ms = None, tensors = Map.empty\<rparr>\<rparr>"

definition add_warning :: "warning \<Rightarrow> validation_results \<Rightarrow> validation_results" where
  "add_warning w vr = vr\<lparr>warnings := warnings vr @ [w]\<rparr>"

definition set_info :: "(info \<Rightarrow> info) \<Rightarrow> validation_results \<Rightarrow> validation_results" where
  "set_info f vr = vr\<lparr>info := f (info vr)\<rparr>"









definition check_mobile_compatibility :: "validation_results \<Rightarrow> py_error + validation_results" where
  "check_mobile_compatibility vr =
     (let score = (100 :: int);
          score =
            (if \<not> (case quantized (info vr) of None \<Rightarrow> False | Some b \<Rightarrow> b)
             then score - 20 else score)
      in case size_mb (info vr) of
           None \<Rightarrow> Inl KeyError
         | Some mb \<Rightarrow>
             (let score =
                    (if mb > 50 then score - 15
                     else if mb > 20 then score - 5
                     else score);
                  memory_mb = (case estimated_memory_mb (info vr) of None \<Rightarrow> 0 | Some v \<Rightarrow> v);
                  score =
                    (if memory_mb > 50 then score - 10 else score);
                  score =
                    (if length (warnings vr) > 0
                     then score - int (length (warnings vr)) * 5
                     else score)
              in Inr (set_info (\<lambda>i. i\<lparr>compatibility_score := Some (max 0 score)\<rparr>) vr)))"



record args =
  test :: bool
  json :: bool


subsection \<open>A sample model and two sample reports\<close>


definition small_results :: validation_results where
  "small_results = set_info (\<lambda>i. i\<lparr>size_mb := Some 10, quantized := Some True\<rparr>) init_results"

definition large_results :: validation_results where
  "large_results = add_warning NotQuantized (set_info (\<lambda>i. i\<lparr>size_mb := Some 60, quantized := Some False\<rparr>) init_results)"

section \<open>The interactive segmenter (interactive_segmentation.py)\<close>

subsection \<open>Parsing the initial box\<close>












subsection \<open>The segmenter object\<close>


















section \<open>Batch segmentation with box prompts (bbox_batch_segmentation.py)\<close>

text \<open>
  The file system, the image library and the pretrained model are the fields of
  \<open>batch_env\<close>, one per external call of the script: \<^verbatim>\<open>os.path.exists\<close>,
  \<^verbatim>\<open>os.path.join\<close>, \<^verbatim>\<open>Image.open(p).convert("RGB")\<close>, the three library calls inside
  \<^verbatim>\<open>process_batch\<close>, \<^verbatim>\<open>Image.fromarray(mask).save(path)\<close>, and the \<^verbatim>\<open>pathlib\<close>
  operations \<^verbatim>\<open>stem\<close>, \<^verbatim>\<open>parent\<close> and \<^verbatim>\<open>/\<close>. A call that can raise returns the
  exception text as \<open>Inl\<close> (or \<open>Some\<close> for a call without result). The masks of one
  image are the list of its per-object masks. \<^verbatim>\<open>all_boxes\<close>, the dictionary read
  from the boxes file, is an association list in insertion order.

  Every function returns the trace of what it did, as a list of events, together
  with the exception that left it, if any: a console warning for a missing image,
  a call of \<^verbatim>\<open>process_batch\<close> with its arguments, a call of \<^verbatim>\<open>save_masks\<close> with its
  arguments, a file written, and the console line of the \<^verbatim>\<open>except\<close> handler.
\<close>

type_synonym box = "int list"

record ('img, 't, 'm) batch_env =
  os_path_exists :: "string \<Rightarrow> bool"
  os_path_join :: "string \<Rightarrow> string \<Rightarrow> string"
  image_open_rgb :: "string \<Rightarrow> string + 'img"
  run_processor :: "'img list \<Rightarrow> box list list \<Rightarrow> string + 't"
  run_model :: "'t \<Rightarrow> string + 't"
  run_post_process :: "'t \<Rightarrow> 't \<Rightarrow> string + 'm list list"
  image_save :: "string \<Rightarrow> 'm \<Rightarrow> string option"
  path_stem :: "string \<Rightarrow> string"
  path_parent :: "string \<Rightarrow> string"
  path_child :: "string \<Rightarrow> string \<Rightarrow> string"

record batch_args =
  images_dir :: string
  output_dir :: string
  batch_size :: int

datatype ('img, 'm) event =
    WarnNotFound string
  | ProcessBatch "'img list" "box list list"
  | SaveMasks "'m list" string string
  | FileSaved string 'm
  | BatchError string string

text \<open>
  \<^verbatim>\<open>s.replace(old, new)\<close> for a non-empty \<^verbatim>\<open>old\<close>: occurrences are replaced from left
  to right without overlap.
\<close>

fun py_replace :: "string \<Rightarrow> string \<Rightarrow> string \<Rightarrow> string" where
  "py_replace old new [] = []"
| "py_replace old new (c # cs) =
     (if old \<noteq> [] \<and> prefix old (c # cs)
      then new @ py_replace old new (drop (length old) (c # cs))
      else c # py_replace old new cs)"

definition process_batch ::
  "('img, 't, 'm) batch_env \<Rightarrow> 'img list \<Rightarrow> box list list \<Rightarrow> string + 'm list list" where
  "process_batch env images boxes =
     (case run_processor env images boxes of
        Inl e \<Rightarrow> Inl e
      | Inr inputs \<Rightarrow>
          (case run_model env inputs of
             Inl e \<Rightarrow> Inl e
           | Inr outputs \<Rightarrow> run_post_process env outputs inputs))"

text \<open>
  \<^verbatim>\<open>save_masks\<close>: one file at \<^verbatim>\<open>output_path\<close> for a single object, otherwise one file
  \<^verbatim>\<open>{stem}_obj{i}.png\<close> per object in the directory of \<^verbatim>\<open>output_path\<close>. The first
  write that raises ends it.
\<close>

fun save_objects ::
  "('img, 't, 'm) batch_env \<Rightarrow> string \<Rightarrow> string \<Rightarrow> nat \<Rightarrow> 'm list
     \<Rightarrow> ('img, 'm) event list \<times> string option" where
  "save_objects env out_dir base_name i [] = ([], None)"
| "save_objects env out_dir base_name i (obj_mask # rest) =
     (let obj_output_path = path_child env out_dir (base_name @ ''_obj'' @ str_nat i @ ''.png'')
      in case image_save env obj_output_path obj_mask of
           Some e \<Rightarrow> ([], Some e)
         | None \<Rightarrow>
             (case save_objects env out_dir base_name (Suc i) rest of
                (evs, r) \<Rightarrow> (FileSaved obj_output_path obj_mask # evs, r)))"

definition save_masks ::
  "('img, 't, 'm) batch_env \<Rightarrow> 'm list \<Rightarrow> string \<Rightarrow> string
     \<Rightarrow> ('img, 'm) event list \<times> string option" where
  "save_masks env masks output_path image_name =
     (let num_objects = length masks
      in if num_objects = 1 then
           (let obj_mask = masks ! 0
            in case image_save env output_path obj_mask of
                 Some e \<Rightarrow> ([], Some e)
               | None \<Rightarrow> ([FileSaved output_path obj_mask], None))
         else
           (let base_name = path_stem env image_name;
                out_dir = path_parent env output_path
            in save_objects env out_dir base_name 0 masks))"

text \<open>
  The body of the \<^verbatim>\<open>try\<close> block: the inference call, then the loop over
  \<^verbatim>\<open>zip(batch_names, batch_masks)\<close>.
\<close>

fun save_results ::
  "('img, 't, 'm) batch_env \<Rightarrow> batch_args \<Rightarrow> (string \<times> 'm list) list
     \<Rightarrow> ('img, 'm) event list \<times> string option" where
  "save_results env args [] = ([], None)"
| "save_results env args ((name, masks) # rest) =
     (let output_path = os_path_join env (output_dir args)
                          (py_replace ''.jpeg'' ''.png'' (py_replace ''.jpg'' ''.png'' name))
      in case save_masks env masks output_path name of
           (evs, Some e) \<Rightarrow> (SaveMasks masks output_path name # evs, Some e)
         | (evs, None) \<Rightarrow>
             (case save_results env args rest of
                (evs', r) \<Rightarrow> (SaveMasks masks output_path name # evs @ evs', r)))"

definition try_block ::
  "('img, 't, 'm) batch_env \<Rightarrow> batch_args \<Rightarrow> string list \<Rightarrow> 'img list \<Rightarrow> box list list
     \<Rightarrow> ('img, 'm) event list \<times> string option" where
  "try_block env args batch_names batch_images batch_boxes =
     (case process_batch env batch_images batch_boxes of
        Inl e \<Rightarrow> ([ProcessBatch batch_images batch_boxes], Some e)
      | Inr batch_masks \<Rightarrow>
          (case save_results env args (zip batch_names batch_masks) of
             (evs, r) \<Rightarrow> (ProcessBatch batch_images batch_boxes # evs, r)))"

text \<open>
  The loop that loads the images of a batch. A missing file is reported and
  skipped; \<^verbatim>\<open>Image.open\<close> and the lookup \<^verbatim>\<open>all_boxes[name]\<close> are outside the \<^verbatim>\<open>try\<close>
  block, so an exception there leaves \<^verbatim>\<open>main\<close>.
\<close>

fun load_images ::
  "('img, 't, 'm) batch_env \<Rightarrow> batch_args \<Rightarrow> (string \<times> box list) list \<Rightarrow> string list
     \<Rightarrow> ('img, 'm) event list \<times> (string + 'img list \<times> box list list)" where
  "load_images env args all_boxes [] = ([], Inr ([], []))"
| "load_images env args all_boxes (name # rest) =
     (let img_path = os_path_join env (images_dir args) name
      in if \<not> os_path_exists env img_path then
           (case load_images env args all_boxes rest of
              (evs, r) \<Rightarrow> (WarnNotFound img_path # evs, r))
         else
           (case image_open_rgb env img_path of
              Inl e \<Rightarrow> ([], Inl e)
            | Inr img \<Rightarrow>
                (case map_of all_boxes name of
                   None \<Rightarrow> ([], Inl ''KeyError'')
                 | Some bs \<Rightarrow>
                     (case load_images env args all_boxes rest of
                        (evs, Inl e) \<Rightarrow> (evs, Inl e)
                      | (evs, Inr (batch_images, batch_boxes)) \<Rightarrow>
                          (evs, Inr (img # batch_images, bs # batch_boxes))))))"

text \<open>
  One iteration of the loop over batches, and the loop itself with the index
  \<open>i\<close> running over \<^verbatim>\<open>range(0, total_images, batch_size)\<close>. \<^verbatim>\<open>range\<close> raises
  \<^verbatim>\<open>ValueError\<close> for a zero step and is empty for a negative one.
\<close>

definition run_batch ::
  "('img, 't, 'm) batch_env \<Rightarrow> batch_args \<Rightarrow> (string \<times> box list) list \<Rightarrow> string list
     \<Rightarrow> ('img, 'm) event list \<times> string option" where
  "run_batch env args all_boxes batch_names =
     (case load_images env args all_boxes batch_names of
        (evs, Inl e) \<Rightarrow> (evs, Some e)
      | (evs, Inr (batch_images, batch_boxes)) \<Rightarrow>
          if batch_images = [] then (evs, None)
          else
            (case try_block env args batch_names batch_images batch_boxes of
               (evs', None) \<Rightarrow> (evs @ evs', None)
             | (evs', Some e) \<Rightarrow>
                 (case batch_names of
                    [] \<Rightarrow> (evs @ evs', Some ''IndexError'')
                  | first # _ \<Rightarrow> (evs @ evs' @ [BatchError first e], None))))"

function batch_loop ::
  "('img, 't, 'm) batch_env \<Rightarrow> batch_args \<Rightarrow> (string \<times> box list) list \<Rightarrow> string list
     \<Rightarrow> nat \<Rightarrow> nat \<Rightarrow> ('img, 'm) event list \<times> string option" where
  "batch_loop env args all_boxes image_names step i =
     (if 0 < step \<and> i < length image_names then
        (let batch_names = take step (drop i image_names)
         in case run_batch env args all_boxes batch_names of
              (evs, Some e) \<Rightarrow> (evs, Some e)
            | (evs, None) \<Rightarrow>
                (case batch_loop env args all_boxes image_names step (i + step) of
                   (evs', r) \<Rightarrow> (evs @ evs', r)))
      else ([], None))"
  by pat_completeness auto
termination
  by (relation "measure (\<lambda>(env, args, all_boxes, image_names, step, i). length image_names - i)") auto

declare batch_loop.simps [simp del]

definition batch_main ::
  "('img, 't, 'm) batch_env \<Rightarrow> batch_args \<Rightarrow> (string \<times> box list) list
     \<Rightarrow> ('img, 'm) event list \<times> string option" where
  "batch_main env args all_boxes =
     (let image_names = map fst all_boxes;
          total_images = length image_names
      in if batch_size args = 0 then ([], Some ''ValueError'')
         else if batch_size args < 0 then ([], None)
         else batch_loop env args all_boxes image_names (nat (batch_size args)) 0)"

text \<open>Reading a trace: the inference calls and the \<^verbatim>\<open>save_masks\<close> calls it contains.\<close>

fun is_process_batch :: "('img, 'm) event \<Rightarrow> bool" where
  "is_process_batch (ProcessBatch imgs bs) = True"
| "is_process_batch _ = False"

definition inference_calls :: "('img, 'm) event list \<Rightarrow> nat" where
  "inference_calls evs = length (filter is_process_batch evs)"

fun save_calls :: "('img, 'm) event list \<Rightarrow> (string \<times> 'm list) list" where
  "save_calls [] = []"
| "save_calls (SaveMasks masks output_path name # evs) = (name, masks) # save_calls evs"
| "save_calls (_ # evs) = save_calls evs"

text \<open>
  Sample environments: a disk on which one path is missing and nothing fails, the
  same disk refusing to write one output file, and a command line.
\<close>

definition disk :: "string \<Rightarrow> (string, nat, string) batch_env" where
  "disk missing =
     \<lparr>os_path_exists = (\<lambda>p. p \<noteq> missing),
      os_path_join = (\<lambda>a b. a @ ''/'' @ b),
      image_open_rgb = (\<lambda>p. Inr p),
      run_processor = (\<lambda>imgs bs. Inr (length imgs)),
      run_model = (\<lambda>t. Inr t),
      run_post_process = (\<lambda>outputs inputs. Inr (map (\<lambda>k. [''mask'' @ str_nat k]) [0 ..< inputs])),
      image_save = (\<lambda>p m. None),
      path_stem = (\<lambda>p. p),
      path_parent = (\<lambda>p. p),
      path_child = (\<lambda>a b. a @ ''/'' @ b)\<rparr>"

definition cli :: "int \<Rightarrow> batch_args" where
  "cli n = \<lparr>images_dir = ''in'', output_dir = ''out'', batch_size = n\<rparr>"

text \<open>
  The path tested for an image name, whether it exists, and the environment that
  differs from a given one only in that no write ever raises.
\<close>

definition img_path :: "('img, 't, 'm) batch_env \<Rightarrow> batch_args \<Rightarrow> string \<Rightarrow> string" where
  "img_path env args name = os_path_join env (images_dir args) name"

definition present :: "('img, 't, 'm) batch_env \<Rightarrow> batch_args \<Rightarrow> string \<Rightarrow> bool" where
  "present env args name = os_path_exists env (img_path env args name)"

definition quiet :: "('img, 't, 'm) batch_env \<Rightarrow> ('img, 't, 'm) batch_env" where
  "quiet env = env\<lparr>image_save := (\<lambda>p m. None)\<rparr>"

definition three_boxes :: "(string \<times> box list) list" where
  "three_boxes =
     [(''a.jpg'', [[0, 0, 1, 1]]), (''b.jpg'', [[0, 0, 2, 2]]), (''c.jpg'', [[0, 0, 2, 2]])]"

definition full_disk :: "(string, nat, string) batch_env" where
  "full_disk =
     (disk ''in/a.jpg'')
       \<lparr>image_save := (\<lambda>p m. if p = ''out/c.png'' then Some ''disk full'' else None)\<rparr>"

section \<open>Properties of the validator\<close>

lemma info_add_warning [simp]: "info (add_warning w vr) = info vr"
  and warnings_add_warning [simp]: "warnings (add_warning w vr) = warnings vr @ [w]"
  and valid_add_warning [simp]: "valid (add_warning w vr) = valid vr"
  and errors_add_warning [simp]: "errors (add_warning w vr) = errors vr"
  by (simp_all add: add_warning_def)

lemma info_set_info [simp]: "info (set_info f vr) = f (info vr)"
  and warnings_set_info [simp]: "warnings (set_info f vr) = warnings vr"
  and valid_set_info [simp]: "valid (set_info f vr) = valid vr"
  and errors_set_info [simp]: "errors (set_info f vr) = errors vr"
  by (simp_all add: set_info_def)

lemma check_mobile_compatibility_closed:
  assumes "size_mb (info vr) = Some mb"
  shows "check_mobile_compatibility vr =
           Inr (set_info (\<lambda>i. i\<lparr>compatibility_score := Some (max 0
             (100 - (if quantized (info vr) = Some True then 0 else 20)
                  - (if mb > 50 then 15 else if mb > 20 then 5 else 0)
                  - (if (case estimated_memory_mb (info vr) of None \<Rightarrow> 0 | Some v \<Rightarrow> v) > 50 then 10 else 0)
                  - 5 * int (length (warnings vr))))\<rparr>) vr)"
  using assms by (cases "quantized (info vr)") (simp_all add: check_mobile_compatibility_def Let_def)











text \<open>
  Claim C3. The score does not increase when more issues are detected: if the
  second report is non-quantized whenever the first is, crosses each size threshold
  and the memory threshold whenever the first does, and carries at least as many
  warnings, then the score stored for the second is at most the one stored for the
  first.
\<close>

theorem compatibility_score_monotone:
  assumes "size_mb (info vr1) = Some mb1" and "size_mb (info vr2) = Some mb2"
    and "quantized (info vr2) = Some True \<Longrightarrow> quantized (info vr1) = Some True"
    and "mb1 > 20 \<Longrightarrow> mb2 > 20" and "mb1 > 50 \<Longrightarrow> mb2 > 50"
    and "(case estimated_memory_mb (info vr1) of None \<Rightarrow> 0 | Some v \<Rightarrow> v) > 50 \<Longrightarrow>
         (case estimated_memory_mb (info vr2) of None \<Rightarrow> 0 | Some v \<Rightarrow> v) > 50"
    and "length (warnings vr1) \<le> length (warnings vr2)"
  shows "\<exists>r1 r2 s1 s2.
           check_mobile_compatibility vr1 = Inr r1 \<and> check_mobile_compatibility vr2 = Inr r2
         \<and> compatibility_score (info r1) = Some s1 \<and> compatibility_score (info r2) = Some s2
         \<and> s2 \<le> s1"
proof -
  let ?mem = "\<lambda>vr. case estimated_memory_mb (info vr) of None \<Rightarrow> (0::rat) | Some v \<Rightarrow> v"
  have q: "(if quantized (info vr1) = Some True then 0 else 20)
             \<le> (if quantized (info vr2) = Some True then 0 else (20::int))"
    using assms(3) by simp
  have s: "(if mb1 > 50 then 15 else if mb1 > 20 then 5 else 0)
             \<le> (if mb2 > 50 then 15 else if mb2 > 20 then 5 else (0::int))"
    using assms(4,5) by simp
  have e: "(if ?mem vr1 > 50 then 10 else 0) \<le> (if ?mem vr2 > 50 then 10 else (0::int))"
    using assms(6) by simp
  have w: "5 * int (length (warnings vr1)) \<le> 5 * int (length (warnings vr2))"
    using assms(7) by simp
  show ?thesis
    unfolding check_mobile_compatibility_closed [OF assms(1)]
      check_mobile_compatibility_closed [OF assms(2)]
    using q s e w by (simp split del: if_split)
qed




theorem compatibility_score_monotone_witness:
  "\<exists>r1 r2 s1 s2.
      check_mobile_compatibility small_results = Inr r1
    \<and> check_mobile_compatibility large_results = Inr r2
    \<and> compatibility_score (info r1) = Some s1 \<and> compatibility_score (info r2) = Some s2
    \<and> s2 \<le> s1"
  by (rule compatibility_score_monotone [of small_results 10 large_results 60])
     (simp_all add: small_results_def large_results_def init_results_def)


section \<open>Properties of the interactive segmenter\<close>

subsection \<open>Parsing\<close>


























subsection \<open>Clicks and reset\<close>



















section \<open>Properties of the batch script\<close>

lemma inference_calls_simps [simp]:
  "inference_calls [] = 0"
  "inference_calls (xs @ ys) = inference_calls xs + inference_calls ys"
  "inference_calls (ProcessBatch imgs bs # xs) = Suc (inference_calls xs)"
  "inference_calls (WarnNotFound p # xs) = inference_calls xs"
  "inference_calls (SaveMasks ms p n # xs) = inference_calls xs"
  "inference_calls (FileSaved p m # xs) = inference_calls xs"
  "inference_calls (BatchError n e # xs) = inference_calls xs"
  by (simp_all add: inference_calls_def)

lemma save_objects_no_inference:
  "save_objects env out_dir base_name i masks = (evs, r) \<Longrightarrow> inference_calls evs = 0"
  by (induction masks arbitrary: i evs r)
     (auto simp: Let_def split: option.splits prod.splits)

lemma save_masks_no_inference:
  "save_masks env masks output_path image_name = (evs, r) \<Longrightarrow> inference_calls evs = 0"
  by (auto simp: save_masks_def Let_def split: option.splits if_splits
           dest: save_objects_no_inference)

lemma save_results_no_inference:
  "save_results env args pairs = (evs, r) \<Longrightarrow> inference_calls evs = 0"
proof (induction pairs arbitrary: evs r)
  case Nil
  then show ?case by simp
next
  case (Cons p pairs)
  obtain name masks where p: "p = (name, masks)" by (cases p)
  let ?path = "os_path_join env (output_dir args)
                 (py_replace ''.jpeg'' ''.png'' (py_replace ''.jpg'' ''.png'' name))"
  obtain evs1 r1 where sm: "save_masks env masks ?path name = (evs1, r1)" by fastforce
  obtain evs2 r2 where sr: "save_results env args pairs = (evs2, r2)" by fastforce
  have "inference_calls evs1 = 0" "inference_calls evs2 = 0"
    using save_masks_no_inference [OF sm] Cons.IH [OF sr] by simp_all
  then show ?case
    using Cons.prems by (cases r1) (auto simp: p sm sr Let_def)
qed

lemma try_block_one_inference:
  "try_block env args batch_names batch_images batch_boxes = (evs, r) \<Longrightarrow> inference_calls evs = 1"
  by (auto simp: try_block_def split: sum.splits prod.splits dest: save_results_no_inference)

lemma load_images_no_inference:
  "load_images env args all_boxes names = (evs, r) \<Longrightarrow> inference_calls evs = 0"
  by (induction names arbitrary: evs r)
     (auto simp: Let_def split: sum.splits option.splits prod.splits if_splits)

lemma load_images_result:
  assumes "load_images env args all_boxes names = (warns, Inr (imgs, boxes))"
  shows "map Inr imgs = map (\<lambda>n. image_open_rgb env (img_path env args n)) (filter (present env args) names)
       \<and> map Some boxes = map (map_of all_boxes) (filter (present env args) names)
       \<and> warns = map (\<lambda>n. WarnNotFound (img_path env args n)) (filter (\<lambda>n. \<not> present env args n) names)"
  using assms
  by (induction names arbitrary: warns imgs boxes)
     (auto simp: Let_def present_def img_path_def split: if_splits sum.splits option.splits prod.splits)

lemma load_images_total:
  assumes "\<forall>n \<in> set names. present env args n \<longrightarrow>
             (\<exists>img. image_open_rgb env (img_path env args n) = Inr img) \<and> map_of all_boxes n \<noteq> None"
  shows "\<exists>warns imgs boxes. load_images env args all_boxes names = (warns, Inr (imgs, boxes))"
  using assms
  by (induction names)
     (auto simp: Let_def present_def img_path_def split: if_splits sum.splits option.splits prod.splits)

lemma run_batch_calls:
  assumes "\<forall>n \<in> set names. present env args n \<longrightarrow>
             (\<exists>img. image_open_rgb env (img_path env args n) = Inr img) \<and> map_of all_boxes n \<noteq> None"
  shows "snd (run_batch env args all_boxes names) = None
       \<and> inference_calls (fst (run_batch env args all_boxes names))
           = (if \<exists>n \<in> set names. present env args n then 1 else 0)"
proof -
  obtain warns imgs boxes where l: "load_images env args all_boxes names = (warns, Inr (imgs, boxes))"
    using load_images_total [OF assms] by blast
  have w: "inference_calls warns = 0"
    using load_images_no_inference [OF l] .
  have "length imgs = length (filter (present env args) names)"
    using load_images_result [OF l] by (metis length_map)
  then have e: "imgs = [] \<longleftrightarrow> \<not> (\<exists>n \<in> set names. present env args n)"
    by (auto simp: filter_empty_conv)
  show ?thesis
  proof (cases "imgs = []")
    case True
    then show ?thesis using l w e by (simp add: run_batch_def)
  next
    case False
    then have "names \<noteq> []" using e by auto
    then obtain first rest where n: "names = first # rest" by (cases names) auto
    obtain evs r where t: "try_block env args names imgs boxes = (evs, r)" by fastforce
    have "inference_calls evs = 1"
      using try_block_one_inference [OF t] .
    then show ?thesis
      using l w e False t n by (cases r) (simp_all add: run_batch_def)
  qed
qed

lemma ceil_step:
  assumes "0 < B" "i < N"
  shows "(N - i + B - 1) div B = Suc ((N - (i + B) + B - 1) div B)"
proof -
  obtain d where d: "N = Suc (i + d)"
    using assms(2) less_imp_Suc_add by blast
  have e: "N - i + B - 1 = d + B"
    unfolding d by simp
  have l: "(N - i + B - 1) div B = Suc (d div B)"
    unfolding e using assms(1) div_add_self2 [of B d] by simp
  have r: "(N - (i + B) + B - 1) div B = d div B"
  proof (cases "B \<le> Suc d")
    case True
    then have e': "N - (i + B) + B - 1 = d" unfolding d by simp
    show ?thesis unfolding e' by (rule refl)
  next
    case False
    then have e': "N - (i + B) + B - 1 = B - 1" and s: "d < B" "B - 1 < B"
      using assms(1) unfolding d by simp_all
    show ?thesis unfolding e' using s by simp
  qed
  show ?thesis unfolding l r by (rule refl)
qed

lemma upt_Suc_shift: "[0 ..< Suc m] = 0 # map Suc [0 ..< m]"
  by (simp add: upt_conv_Cons map_Suc_upt del: upt_Suc)

lemma batch_loop_calls:
  assumes "0 < B"
    and "\<forall>n \<in> set names. present env args n \<longrightarrow>
           (\<exists>img. image_open_rgb env (img_path env args n) = Inr img) \<and> map_of all_boxes n \<noteq> None"
  shows "snd (batch_loop env args all_boxes names B i) = None
       \<and> inference_calls (fst (batch_loop env args all_boxes names B i))
           = length (filter (\<lambda>k. \<exists>n \<in> set (take B (drop (i + k * B) names)). present env args n)
                       [0 ..< (length names - i + B - 1) div B])"
  using assms
proof (induction env args all_boxes names B i rule: batch_loop.induct)
  case (1 env args all_boxes names B i)
  show ?case
  proof (cases "i < length names")
    case False
    then have "(length names - i + B - 1) div B = 0"
      using "1.prems"(1) by simp
    then show ?thesis
      using False by (subst (1 2) batch_loop.simps) simp
  next
    case True
    let ?b = "take B (drop i names)"
    have sub: "\<forall>n \<in> set ?b. present env args n \<longrightarrow>
           (\<exists>img. image_open_rgb env (img_path env args n) = Inr img) \<and> map_of all_boxes n \<noteq> None"
      using "1.prems"(2) by (meson in_set_dropD in_set_takeD)
    obtain evs where rb: "run_batch env args all_boxes ?b = (evs, None)"
      and c: "inference_calls evs = (if \<exists>n \<in> set ?b. present env args n then 1 else 0)"
      using run_batch_calls [OF sub] by (cases "run_batch env args all_boxes ?b") auto
    obtain evs' r where bl: "batch_loop env args all_boxes names B (i + B) = (evs', r)"
      by fastforce
    have ih: "r = None \<and> inference_calls evs'
           = length (filter (\<lambda>k. \<exists>n \<in> set (take B (drop (i + B + k * B) names)). present env args n)
                       [0 ..< (length names - (i + B) + B - 1) div B])"
      using "1.IH" [OF _ refl rb [symmetric] refl "1.prems"] True "1.prems"(1) bl by simp
    have unfold: "batch_loop env args all_boxes names B i = (evs @ evs', r)"
      using True "1.prems"(1) rb bl by (subst batch_loop.simps) (simp add: Let_def)
    have shift: "(\<lambda>k. \<exists>n \<in> set (take B (drop (i + k * B) names)). present env args n) \<circ> Suc
                 = (\<lambda>k. \<exists>n \<in> set (take B (drop (i + B + k * B) names)). present env args n)"
      by (rule ext) (simp add: add.assoc)
    show ?thesis
      unfolding unfold ceil_step [OF "1.prems"(1) True] upt_Suc_shift
      using ih c by (simp add: filter_map shift)
  qed
qed

lemma map_of_keys: "n \<in> set (map fst all_boxes) \<Longrightarrow> map_of all_boxes n \<noteq> None"
  by (induction all_boxes) auto

text \<open>
  Claim C2, amended. For a positive batch size \<open>B\<close> and \<open>N\<close> image names, when no
  existing image fails to open, the script runs to the end and calls
  \<^verbatim>\<open>process_batch\<close> once for each of the \<open>\<lceil>N / B\<rceil>\<close> batches that contains at least one
  existing image file, and not at all for a batch whose image files are all
  missing. So there are at most \<open>\<lceil>N / B\<rceil>\<close> calls, and exactly \<open>\<lceil>N / B\<rceil>\<close> when every
  listed image file exists. (\<open>(N + B - 1) div B\<close> is \<open>\<lceil>N / B\<rceil>\<close>.)
\<close>

theorem inference_calls_per_batch:
  assumes "0 < batch_size args"
    and "\<forall>name \<in> set (map fst all_boxes). present env args name \<longrightarrow>
           (\<exists>img. image_open_rgb env (img_path env args name) = Inr img)"
    and "N = length all_boxes" and "B = nat (batch_size args)"
    and "calls = inference_calls (fst (batch_main env args all_boxes))"
  shows "snd (batch_main env args all_boxes) = None
       \<and> calls = length (filter
                  (\<lambda>k. \<exists>name \<in> set (take B (drop (k * B) (map fst all_boxes))). present env args name)
                  [0 ..< (N + B - 1) div B])
       \<and> calls \<le> (N + B - 1) div B
       \<and> ((\<forall>name \<in> set (map fst all_boxes). present env args name) \<longrightarrow> calls = (N + B - 1) div B)"
proof -
  let ?names = "map fst all_boxes"
  let ?has = "\<lambda>k. \<exists>name \<in> set (take B (drop (k * B) ?names)). present env args name"
  let ?ks = "[0 ..< (N + B - 1) div B]"
  have B: "0 < B" using assms(1,4) by simp
  have ok: "\<forall>n \<in> set ?names. present env args n \<longrightarrow>
           (\<exists>img. image_open_rgb env (img_path env args n) = Inr img) \<and> map_of all_boxes n \<noteq> None"
    using assms(2) map_of_keys [of _ all_boxes] by auto
  have m: "batch_main env args all_boxes = batch_loop env args all_boxes ?names B 0"
    using assms(1,4) by (simp add: batch_main_def Let_def)
  have loop: "snd (batch_main env args all_boxes) = None" "calls = length (filter ?has ?ks)"
    using batch_loop_calls [OF B ok, of 0] assms(3,5) unfolding m by simp_all
  have le: "calls \<le> (N + B - 1) div B"
    unfolding loop(2) using length_filter_le [of ?has ?ks] by simp
  have all: "calls = (N + B - 1) div B" if p: "\<forall>name \<in> set ?names. present env args name"
  proof -
    have "?has k" if "k \<in> set ?ks" for k
    proof -
      have "k < (N + B - 1) div B" using that by simp
      then have "Suc k \<le> (N + B - 1) div B" by simp
      then have "Suc k * B \<le> N + B - 1"
        using less_eq_div_iff_mult_less_eq [OF B, of "Suc k" "N + B - 1"] by simp
      then have "k * B + B \<le> N + B - 1" by simp
      then have "k * B < N" using B by arith
      then have "take B (drop (k * B) ?names) \<noteq> []"
        using B assms(3) by simp
      then obtain n where n: "n \<in> set (take B (drop (k * B) ?names))"
        by (cases "take B (drop (k * B) ?names)") auto
      then have "n \<in> set (drop (k * B) ?names)"
        by (rule in_set_takeD)
      then have "n \<in> set ?names"
        by (rule in_set_dropD)
      note n
      moreover note \<open>n \<in> set ?names\<close>
      ultimately show ?thesis using p by blast
    qed
    then have "\<forall>k \<in> set ?ks. ?has k" by (rule ballI)
    then have "filter ?has ?ks = ?ks" by (rule iffD2 [OF filter_id_conv])
    then show ?thesis unfolding loop(2) by simp
  qed
  show ?thesis
    by (intro conjI impI) (fact loop(1), fact loop(2), fact le, rule all, assumption)
qed

lemma example_load_two:
  "load_images full_disk (cli 2) three_boxes [''b.jpg'', ''c.jpg'']
     = ([], Inr ([''in/b.jpg'', ''in/c.jpg''], [[[0, 0, 2, 2]], [[0, 0, 2, 2]]]))"
  by code_simp

lemma example_try_two:
  "try_block full_disk (cli 2) [''b.jpg'', ''c.jpg''] [''in/b.jpg'', ''in/c.jpg'']
       [[[0, 0, 2, 2]], [[0, 0, 2, 2]]]
     = ([ProcessBatch [''in/b.jpg'', ''in/c.jpg''] [[[0, 0, 2, 2]], [[0, 0, 2, 2]]],
         SaveMasks [''mask0''] ''out/b.png'' ''b.jpg'',
         FileSaved ''out/b.png'' ''mask0'',
         SaveMasks [''mask1''] ''out/c.png'' ''c.jpg''],
        Some ''disk full'')"
  by code_simp

lemma example_load_three:
  "load_images (disk ''in/a.jpg'') (cli 3) three_boxes [''a.jpg'', ''b.jpg'', ''c.jpg'']
     = ([WarnNotFound ''in/a.jpg''],
        Inr ([''in/b.jpg'', ''in/c.jpg''], [[[0, 0, 2, 2]], [[0, 0, 2, 2]]]))"
  by code_simp

lemma example_process_three:
  "process_batch (disk ''in/a.jpg'') [''in/b.jpg'', ''in/c.jpg''] [[[0, 0, 2, 2]], [[0, 0, 2, 2]]]
     = Inr [[''mask0''], [''mask1'']]"
  by code_simp

lemma example_try_three:
  "try_block (disk ''in/a.jpg'') (cli 3) [''a.jpg'', ''b.jpg'', ''c.jpg'']
       [''in/b.jpg'', ''in/c.jpg''] [[[0, 0, 2, 2]], [[0, 0, 2, 2]]]
     = ([ProcessBatch [''in/b.jpg'', ''in/c.jpg''] [[[0, 0, 2, 2]], [[0, 0, 2, 2]]],
         SaveMasks [''mask0''] ''out/a.png'' ''a.jpg'',
         FileSaved ''out/a.png'' ''mask0'',
         SaveMasks [''mask1''] ''out/b.png'' ''b.jpg'',
         FileSaved ''out/b.png'' ''mask1''],
        None)"
  by code_simp

lemma example_existing:
  "filter (present (disk ''in/a.jpg'') (cli 3)) [''a.jpg'', ''b.jpg'', ''c.jpg''] = [''b.jpg'', ''c.jpg'']"
  by code_simp

lemma example_missing_run:
  "batch_main (disk ''in/a.jpg'') (cli 1) [(''a.jpg'', [[0, 0, 1, 1]])]
     = ([WarnNotFound ''in/a.jpg''], None)"
  by code_simp

theorem inference_calls_per_batch_witness:
  "0 < batch_size (cli 2)
 \<and> snd (batch_main (disk ''in/a.jpg'') (cli 2) three_boxes) = None
 \<and> inference_calls (fst (batch_main (disk ''in/a.jpg'') (cli 2) three_boxes)) \<le> (3 + 2 - 1) div 2"
proof -
  have h1: "0 < batch_size (cli 2)"
    by (simp add: cli_def)
  have h2: "\<forall>name \<in> set (map fst three_boxes). present (disk ''in/a.jpg'') (cli 2) name \<longrightarrow>
              (\<exists>img. image_open_rgb (disk ''in/a.jpg'') (img_path (disk ''in/a.jpg'') (cli 2) name) = Inr img)"
    by (simp add: disk_def)
  have n: "length three_boxes = 3" "nat (batch_size (cli 2)) = 2"
    by (simp_all add: three_boxes_def cli_def)
  show ?thesis
    using h1 inference_calls_per_batch [OF h1 h2 refl refl refl] unfolding n by simp
qed

text \<open>
  As stated, with exactly \<open>\<lceil>N / B\<rceil>\<close> calls for every boxes file, claim C2 fails: with
  one listed image whose file is missing and batch size \<open>1\<close>, no call is made.
\<close>

theorem ceil_calls_counterexample:
  "0 < batch_size (cli 1)
 \<and> inference_calls (fst (batch_main (disk ''in/a.jpg'') (cli 1) [(''a.jpg'', [[0, 0, 1, 1]])]))
     \<noteq> (length [(''a.jpg'', [[0, 0, 1, 1 :: int]])] + nat (batch_size (cli 1)) - 1)
         div nat (batch_size (cli 1))"
  unfolding example_missing_run by (simp add: cli_def)

lemma quiet_fields [simp]:
  "image_save (quiet env) = (\<lambda>p m. None)"
  "path_child (quiet env) = path_child env"
  "path_stem (quiet env) = path_stem env"
  "path_parent (quiet env) = path_parent env"
  "os_path_join (quiet env) = os_path_join env"
  "run_processor (quiet env) = run_processor env"
  "run_model (quiet env) = run_model env"
  "run_post_process (quiet env) = run_post_process env"
  by (simp_all add: quiet_def)

lemma process_batch_quiet [simp]: "process_batch (quiet env) = process_batch env"
  by (intro ext) (simp add: process_batch_def split: sum.splits)

lemma save_objects_quiet_ok:
  "save_objects (quiet env) d b i ms = (evs, r) \<Longrightarrow> r = None"
proof (induction ms arbitrary: i evs r)
  case Nil
  then show ?case by simp
next
  case (Cons m ms)
  obtain evs0 r0 where q: "save_objects (quiet env) d b (Suc i) ms = (evs0, r0)" by fastforce
  have "r0 = None" by (rule Cons.IH [OF q])
  then show ?case using Cons.prems q by (simp add: Let_def)
qed

lemma save_objects_same:
  "save_objects env d b i ms = (evs, None) \<Longrightarrow> save_objects (quiet env) d b i ms = (evs, None)"
proof (induction ms arbitrary: i evs)
  case Nil
  then show ?case by simp
next
  case (Cons m ms)
  let ?p = "path_child env d (b @ ''_obj'' @ str_nat i @ ''.png'')"
  obtain evs1 r1 where s: "save_objects env d b (Suc i) ms = (evs1, r1)" by fastforce
  show ?case
  proof (cases "image_save env ?p m")
    case (Some e)
    then show ?thesis using Cons.prems by (simp add: Let_def)
  next
    case None
    then have "r1 = None" "evs = FileSaved ?p m # evs1"
      using Cons.prems s by (simp_all add: Let_def)
    then show ?thesis
      using Cons.IH [of "Suc i" evs1] s by (simp add: Let_def)
  qed
qed

lemma save_objects_strict:
  "save_objects env d b i ms = (evs, Some e) \<Longrightarrow>
   strict_prefix evs (fst (save_objects (quiet env) d b i ms))"
proof (induction ms arbitrary: i evs)
  case Nil
  then show ?case by simp
next
  case (Cons m ms)
  let ?p = "path_child env d (b @ ''_obj'' @ str_nat i @ ''.png'')"
  obtain evs1 r1 where s: "save_objects env d b (Suc i) ms = (evs1, r1)" by fastforce
  obtain evs0 r0 where q: "save_objects (quiet env) d b (Suc i) ms = (evs0, r0)" by fastforce
  have q': "fst (save_objects (quiet env) d b i (m # ms)) = FileSaved ?p m # evs0"
    using q by (simp add: Let_def)
  show ?case
  proof (cases "image_save env ?p m")
    case (Some e')
    then have "evs = []" using Cons.prems by (simp add: Let_def)
    then show ?thesis unfolding q' by simp
  next
    case None
    then have "r1 = Some e" "evs = FileSaved ?p m # evs1"
      using Cons.prems s by (simp_all add: Let_def)
    moreover from this have "strict_prefix evs1 evs0"
      using Cons.IH [of "Suc i" evs1] s q by simp
    ultimately show ?thesis unfolding q' by simp
  qed
qed

lemma save_masks_quiet_ok:
  "save_masks (quiet env) ms p n = (evs, r) \<Longrightarrow> r = None"
  by (auto simp: save_masks_def Let_def split: if_splits dest: save_objects_quiet_ok)

lemma save_masks_same:
  assumes "save_masks env ms p n = (evs, None)"
  shows "save_masks (quiet env) ms p n = (evs, None)"
proof (cases "length ms = 1")
  case True
  then show ?thesis
    using assms by (cases "image_save env p (ms ! 0)") (simp_all add: save_masks_def Let_def)
next
  case False
  then have "save_objects env (path_parent env p) (path_stem env n) 0 ms = (evs, None)"
    using assms by (simp add: save_masks_def Let_def)
  from save_objects_same [OF this] show ?thesis
    using False by (simp add: save_masks_def Let_def)
qed

lemma save_masks_strict:
  assumes "save_masks env ms p n = (evs, Some e)"
  shows "strict_prefix evs (fst (save_masks (quiet env) ms p n))"
proof (cases "length ms = 1")
  case True
  then show ?thesis
    using assms by (cases "image_save env p (ms ! 0)") (simp_all add: save_masks_def Let_def)
next
  case False
  then have "save_objects env (path_parent env p) (path_stem env n) 0 ms = (evs, Some e)"
    using assms by (simp add: save_masks_def Let_def)
  from save_objects_strict [OF this] show ?thesis
    using False by (simp add: save_masks_def Let_def)
qed

lemma save_results_quiet_ok:
  "save_results (quiet env) args pairs = (evs, r) \<Longrightarrow> r = None"
proof (induction pairs arbitrary: evs r)
  case Nil
  then show ?case by simp
next
  case (Cons p pairs)
  obtain name masks where p: "p = (name, masks)" by (cases p)
  let ?path = "os_path_join env (output_dir args)
                 (py_replace ''.jpeg'' ''.png'' (py_replace ''.jpg'' ''.png'' name))"
  obtain q1 r1 where qm: "save_masks (quiet env) masks ?path name = (q1, r1)" by fastforce
  obtain q2 r2 where qr: "save_results (quiet env) args pairs = (q2, r2)" by fastforce
  have "r1 = None" "r2 = None"
    using save_masks_quiet_ok [OF qm] Cons.IH [OF qr] by simp_all
  then show ?case
    using Cons.prems qm qr by (simp add: p Let_def)
qed

lemma save_results_prefix:
  assumes "save_results env args pairs = (evs, r)"
  shows "case r of None \<Rightarrow> evs = fst (save_results (quiet env) args pairs)
                 | Some e \<Rightarrow> strict_prefix evs (fst (save_results (quiet env) args pairs))"
  using assms
proof (induction pairs arbitrary: evs r)
  case Nil
  then show ?case by simp
next
  case (Cons p pairs)
  obtain name masks where p: "p = (name, masks)" by (cases p)
  let ?path = "os_path_join env (output_dir args)
                 (py_replace ''.jpeg'' ''.png'' (py_replace ''.jpg'' ''.png'' name))"
  obtain evs1 r1 where sm: "save_masks env masks ?path name = (evs1, r1)" by fastforce
  obtain q1 qr1 where qm0: "save_masks (quiet env) masks ?path name = (q1, qr1)" by fastforce
  obtain q2 qr2 where qr0: "save_results (quiet env) args pairs = (q2, qr2)" by fastforce
  have qm: "save_masks (quiet env) masks ?path name = (q1, None)"
    using qm0 save_masks_quiet_ok [OF qm0] by simp
  have qr: "save_results (quiet env) args pairs = (q2, None)"
    using qr0 save_results_quiet_ok [OF qr0] by simp
  have q: "fst (save_results (quiet env) args (p # pairs)) = SaveMasks masks ?path name # q1 @ q2"
    using qm qr by (simp add: p Let_def)
  show ?case
  proof (cases r1)
    case (Some e)
    have "evs = SaveMasks masks ?path name # evs1" "r = Some e"
      using Cons.prems sm Some by (simp_all add: p Let_def)
    moreover have "strict_prefix evs1 q1"
      using save_masks_strict [of env masks ?path name evs1 e] sm Some qm by simp
    then have "strict_prefix evs1 (q1 @ q2)"
      by (auto simp: strict_prefix_def prefix_def)
    ultimately show ?thesis unfolding q by simp
  next
    case None
    obtain evs2 r2 where sr: "save_results env args pairs = (evs2, r2)" by fastforce
    have e: "evs = SaveMasks masks ?path name # evs1 @ evs2" "r = r2"
      using Cons.prems sm sr None by (simp_all add: p Let_def)
    have "evs1 = q1"
      using save_masks_same [of env masks ?path name evs1] sm None qm by simp
    moreover have "case r2 of None \<Rightarrow> evs2 = q2 | Some e \<Rightarrow> strict_prefix evs2 q2"
      using Cons.IH [OF sr] qr by (cases r2) simp_all
    ultimately show ?thesis
      unfolding q e by (cases r2) (auto simp: strict_prefix_def)
  qed
qed

lemma try_block_prefix:
  assumes "try_block env args names imgs boxes = (evs, Some e)"
  shows "prefix evs (fst (try_block (quiet env) args names imgs boxes))
       \<and> (process_batch env imgs boxes = Inl e \<and> evs = [ProcessBatch imgs boxes]
          \<or> (\<exists>masks. process_batch env imgs boxes = Inr masks)
            \<and> strict_prefix evs (fst (try_block (quiet env) args names imgs boxes)))"
proof (cases "process_batch env imgs boxes")
  case (Inl e')
  then show ?thesis using assms by (simp add: try_block_def)
next
  case (Inr masks)
  obtain evs1 r1 where sr: "save_results env args (zip names masks) = (evs1, r1)" by fastforce
  have "evs = ProcessBatch imgs boxes # evs1" "r1 = Some e"
    using assms Inr sr by (simp_all add: try_block_def)
  moreover have "strict_prefix evs1 (fst (save_results (quiet env) args (zip names masks)))"
    using save_results_prefix [OF sr] \<open>r1 = Some e\<close> by simp
  ultimately show ?thesis
    using Inr by (auto simp: try_block_def strict_prefix_def split: prod.splits)
qed

text \<open>
  Claim C6. When an exception leaves \<^verbatim>\<open>process_batch\<close> or a \<^verbatim>\<open>save_masks\<close> call of a
  batch, the batch ends with the console line of the handler and the script does
  not stop: the trace of the batch is what was done up to the raising step (a
  prefix of what the batch does when no write raises, with nothing written at all
  when the inference raised and strictly less when a write raised), it contains
  exactly one inference call, and the loop goes on with the next batch.
\<close>

theorem batch_exception_logged_and_skipped:
  assumes "load_images env args all_boxes batch_names = (warns, Inr (batch_images, batch_boxes))"
    and "batch_images \<noteq> []"
    and "try_block env args batch_names batch_images batch_boxes = (evs, Some e)"
  shows "\<exists>first rest.
           batch_names = first # rest
         \<and> run_batch env args all_boxes batch_names = (warns @ evs @ [BatchError first e], None)
         \<and> inference_calls evs = 1
         \<and> prefix evs (fst (try_block (quiet env) args batch_names batch_images batch_boxes))
         \<and> (process_batch env batch_images batch_boxes = Inl e
              \<and> evs = [ProcessBatch batch_images batch_boxes]
            \<or> (\<exists>masks. process_batch env batch_images batch_boxes = Inr masks)
              \<and> strict_prefix evs (fst (try_block (quiet env) args batch_names batch_images batch_boxes)))
         \<and> (\<forall>image_names step i.
               0 < step \<and> i < length image_names \<and> batch_names = take step (drop i image_names) \<longrightarrow>
               batch_loop env args all_boxes image_names step i
                 = (warns @ evs @ [BatchError first e]
                      @ fst (batch_loop env args all_boxes image_names step (i + step)),
                    snd (batch_loop env args all_boxes image_names step (i + step))))"
proof -
  have "length batch_images = length (filter (present env args) batch_names)"
    using load_images_result [OF assms(1)] by (metis length_map)
  then have "batch_names \<noteq> []" using assms(2) by auto
  then obtain first rest where n: "batch_names = first # rest"
    by (cases batch_names) auto
  have rb: "run_batch env args all_boxes batch_names = (warns @ evs @ [BatchError first e], None)"
    using assms by (simp add: run_batch_def n)
  have loop: "batch_loop env args all_boxes image_names step i
                 = (warns @ evs @ [BatchError first e]
                      @ fst (batch_loop env args all_boxes image_names step (i + step)),
                    snd (batch_loop env args all_boxes image_names step (i + step)))"
    if "0 < step \<and> i < length image_names \<and> batch_names = take step (drop i image_names)"
    for image_names step i
    using that rb
    by (subst batch_loop.simps) (simp add: Let_def split: prod.splits)
  show ?thesis
    using n rb try_block_one_inference [OF assms(3)] try_block_prefix [OF assms(3)] loop
    by (intro exI [of _ first] exI [of _ rest]) simp
qed

theorem batch_exception_logged_and_skipped_witness:
  "run_batch full_disk (cli 2) three_boxes [''b.jpg'', ''c.jpg'']
     = ([ProcessBatch [''in/b.jpg'', ''in/c.jpg''] [[[0, 0, 2, 2]], [[0, 0, 2, 2]]],
         SaveMasks [''mask0''] ''out/b.png'' ''b.jpg'',
         FileSaved ''out/b.png'' ''mask0'',
         SaveMasks [''mask1''] ''out/c.png'' ''c.jpg'',
         BatchError ''b.jpg'' ''disk full''],
        None)"
proof -
  have h2: "[''in/b.jpg'', ''in/c.jpg''] \<noteq> ([] :: string list)"
    by simp
  show ?thesis
    using batch_exception_logged_and_skipped [OF example_load_two h2 example_try_two]
    by auto
qed

lemma save_calls_append [simp]: "save_calls (xs @ ys) = save_calls xs @ save_calls ys"
  by (induction xs rule: save_calls.induct) simp_all

lemma save_objects_no_calls:
  "save_objects env d b i ms = (evs, r) \<Longrightarrow> save_calls evs = []"
  by (induction ms arbitrary: i evs r) (auto simp: Let_def split: option.splits prod.splits)

lemma save_masks_no_calls:
  "save_masks env ms p n = (evs, r) \<Longrightarrow> save_calls evs = []"
  by (auto simp: save_masks_def Let_def split: option.splits if_splits dest: save_objects_no_calls)

lemma save_results_calls:
  assumes "save_results env args pairs = (evs, r)"
  shows "prefix (save_calls evs) pairs \<and> (r = None \<longrightarrow> save_calls evs = pairs)"
  using assms
proof (induction pairs arbitrary: evs r)
  case Nil
  then show ?case by simp
next
  case (Cons p pairs)
  obtain name masks where p: "p = (name, masks)" by (cases p)
  let ?path = "os_path_join env (output_dir args)
                 (py_replace ''.jpeg'' ''.png'' (py_replace ''.jpg'' ''.png'' name))"
  obtain evs1 r1 where sm: "save_masks env masks ?path name = (evs1, r1)" by fastforce
  obtain evs2 r2 where sr: "save_results env args pairs = (evs2, r2)" by fastforce
  have c1: "save_calls evs1 = []" by (rule save_masks_no_calls [OF sm])
  have ih: "prefix (save_calls evs2) pairs \<and> (r2 = None \<longrightarrow> save_calls evs2 = pairs)"
    by (rule Cons.IH [OF sr])
  show ?case
    using Cons.prems sm sr c1 ih by (cases r1) (auto simp: p Let_def)
qed

lemma filter_nth_later:
  "j < length (filter P xs) \<Longrightarrow>
   \<exists>k. j \<le> k \<and> k < length xs \<and> filter P xs ! j = xs ! k \<and> (k = j \<longrightarrow> (\<forall>i \<le> j. P (xs ! i)))"
proof (induction xs arbitrary: j)
  case Nil
  then show ?case by simp
next
  case (Cons x xs)
  show ?case
  proof (cases "P x")
    case False
    then have "j < length (filter P xs)" using Cons.prems by simp
    from Cons.IH [OF this] obtain k where
      "j \<le> k" "k < length xs" "filter P xs ! j = xs ! k" by blast
    then show ?thesis
      using False by (intro exI [of _ "Suc k"]) simp
  next
    case True
    show ?thesis
    proof (cases j)
      case 0
      then show ?thesis using True by (intro exI [of _ 0]) simp
    next
      case (Suc j')
      then have "j' < length (filter P xs)" using Cons.prems True by simp
      from Cons.IH [OF this] obtain k where k:
        "j' \<le> k" "k < length xs" "filter P xs ! j' = xs ! k" "k = j' \<longrightarrow> (\<forall>i \<le> j'. P (xs ! i))"
        by blast
      have "\<forall>i \<le> Suc j'. P ((x # xs) ! i)" if "k = j'"
      proof (intro allI impI)
        fix i assume "i \<le> Suc j'"
        then show "P ((x # xs) ! i)"
          using True k(4) that by (cases i) simp_all
      qed
      then show ?thesis
        using True Suc k by (intro exI [of _ "Suc k"]) simp
    qed
  qed
qed

text \<open>
  Claim C9. The images given to the model are those of the existing names, in
  order, and \<^verbatim>\<open>save_masks\<close> is called on the zip of all the names of the batch with
  the masks returned. When every image file of the batch exists the two lists of
  names agree, so each mask is saved under the name of its image. When the file of
  a name is missing, the mask at every later position \<open>j\<close> belongs to the image of a
  name further down the list, and is saved under the earlier name at position \<open>j\<close>.
\<close>

theorem masks_paired_positionally:
  assumes "load_images env args all_boxes batch_names = (warns, Inr (batch_images, batch_boxes))"
    and "process_batch env batch_images batch_boxes = Inr batch_masks"
    and "try_block env args batch_names batch_images batch_boxes = (evs, r)"
    and "existing = filter (present env args) batch_names"
  shows "map Inr batch_images = map (\<lambda>n. image_open_rgb env (img_path env args n)) existing
       \<and> prefix (save_calls evs) (zip batch_names batch_masks)
       \<and> (r = None \<longrightarrow> save_calls evs = zip batch_names batch_masks)
       \<and> ((\<forall>n \<in> set batch_names. present env args n) \<longrightarrow> existing = batch_names)
       \<and> (\<forall>i j. distinct batch_names \<and> i \<le> j \<and> j < length existing
                \<and> \<not> present env args (batch_names ! i) \<longrightarrow>
              (\<exists>k. j < k \<and> k < length batch_names \<and> existing ! j = batch_names ! k)
              \<and> batch_names ! j \<noteq> existing ! j)"
proof -
  have imgs: "map Inr batch_images = map (\<lambda>n. image_open_rgb env (img_path env args n)) existing"
    using load_images_result [OF assms(1)] assms(4) by simp
  obtain evs1 where sr: "save_results env args (zip batch_names batch_masks) = (evs1, r)"
    and evs: "evs = ProcessBatch batch_images batch_boxes # evs1"
    using assms(2,3) by (auto simp: try_block_def split: prod.splits)
  have calls: "prefix (save_calls evs) (zip batch_names batch_masks)"
    "r = None \<longrightarrow> save_calls evs = zip batch_names batch_masks"
    using save_results_calls [OF sr] unfolding evs by simp_all
  have all: "(\<forall>n \<in> set batch_names. present env args n) \<longrightarrow> existing = batch_names"
    unfolding assms(4) by simp
  have shifted: "(\<exists>k. j < k \<and> k < length batch_names \<and> existing ! j = batch_names ! k)
                  \<and> batch_names ! j \<noteq> existing ! j"
    if h: "distinct batch_names \<and> i \<le> j \<and> j < length existing
             \<and> \<not> present env args (batch_names ! i)" for i j
  proof -
    have "j < length (filter (present env args) batch_names)"
      using h assms(4) by simp
    from filter_nth_later [OF this] obtain k where k:
      "j \<le> k" "k < length batch_names" "existing ! j = batch_names ! k"
      "k = j \<longrightarrow> (\<forall>i \<le> j. present env args (batch_names ! i))"
      unfolding assms(4) by blast
    have "k \<noteq> j" using k(4) h by blast
    then have lt: "j < k" using k(1) by simp
    then have "batch_names ! j \<noteq> batch_names ! k"
      using h k(2) by (simp add: nth_eq_iff_index_eq)
    then show ?thesis using lt k by auto
  qed
  show ?thesis
    using imgs calls all shifted by blast
qed

lemma example_absent: "\<not> present (disk ''in/a.jpg'') (cli 3) ''a.jpg''"
  by (simp add: present_def img_path_def disk_def cli_def)

theorem masks_paired_positionally_witness:
  "save_calls [ProcessBatch [''in/b.jpg'', ''in/c.jpg''] [[[0, 0, 2, 2]], [[0, 0, 2, 2]]],
               SaveMasks [''mask0''] ''out/a.png'' ''a.jpg'',
               FileSaved ''out/a.png'' ''mask0'',
               SaveMasks [''mask1''] ''out/b.png'' ''b.jpg'',
               FileSaved ''out/b.png'' ''mask1'']
     = zip [''a.jpg'', ''b.jpg'', ''c.jpg''] [[''mask0''], [''mask1'']]
 \<and> (\<exists>k. 0 < k \<and> k < length [''a.jpg'', ''b.jpg'', ''c.jpg'']
          \<and> [''b.jpg'', ''c.jpg''] ! 0 = [''a.jpg'', ''b.jpg'', ''c.jpg''] ! k)
 \<and> [''a.jpg'', ''b.jpg'', ''c.jpg''] ! 0 \<noteq> [''b.jpg'', ''c.jpg''] ! 0"
proof -
  note t = masks_paired_positionally
    [OF example_load_three example_process_three example_try_three example_existing [symmetric]]
  from t have calls: "save_calls
      [ProcessBatch [''in/b.jpg'', ''in/c.jpg''] [[[0, 0, 2, 2]], [[0, 0, 2, 2]]],
       SaveMasks [''mask0''] ''out/a.png'' ''a.jpg'',
       FileSaved ''out/a.png'' ''mask0'',
       SaveMasks [''mask1''] ''out/b.png'' ''b.jpg'',
       FileSaved ''out/b.png'' ''mask1'']
     = zip [''a.jpg'', ''b.jpg'', ''c.jpg''] [[''mask0''], [''mask1'']]"
    by blast
  have pre: "distinct [''a.jpg'', ''b.jpg'', ''c.jpg''] \<and> (0::nat) \<le> 0
               \<and> 0 < length [''b.jpg'', ''c.jpg'']
               \<and> \<not> present (disk ''in/a.jpg'') (cli 3) ([''a.jpg'', ''b.jpg'', ''c.jpg''] ! 0)"
    using example_absent by simp
  from t have "\<forall>i j. distinct [''a.jpg'', ''b.jpg'', ''c.jpg''] \<and> i \<le> j
                  \<and> j < length [''b.jpg'', ''c.jpg'']
                  \<and> \<not> present (disk ''in/a.jpg'') (cli 3) ([''a.jpg'', ''b.jpg'', ''c.jpg''] ! i) \<longrightarrow>
                (\<exists>k. j < k \<and> k < length [''a.jpg'', ''b.jpg'', ''c.jpg'']
                       \<and> [''b.jpg'', ''c.jpg''] ! j = [''a.jpg'', ''b.jpg'', ''c.jpg''] ! k)
                \<and> [''a.jpg'', ''b.jpg'', ''c.jpg''] ! j \<noteq> [''b.jpg'', ''c.jpg''] ! j"
    by (elim conjE)
  then have "(\<exists>k. 0 < k \<and> k < length [''a.jpg'', ''b.jpg'', ''c.jpg'']
                       \<and> [''b.jpg'', ''c.jpg''] ! 0 = [''a.jpg'', ''b.jpg'', ''c.jpg''] ! k)
                \<and> [''a.jpg'', ''b.jpg'', ''c.jpg''] ! 0 \<noteq> [''b.jpg'', ''c.jpg''] ! 0"
    using pre by (elim allE [of _ 0] impE)
  with calls show ?thesis by (intro conjI) (elim conjE, assumption)+
qed

end
